theory Spec2Isabelle
  imports Main
begin

section \<open>The radix tree of kradix.go\<close>

text \<open>
  A shallow embedding of \<^verbatim>\<open>src/kradix.go\<close>: a trie over byte strings whose nodes hold a
  terminal flag, a value and a fixed array of \<^verbatim>\<open>branchingFactor\<close> child pointers, with a
  pool that recycles released nodes.

  Keys are Go strings, that is byte sequences: \<open>string\<close> (a \<open>char list\<close>, one \<open>char\<close> per
  byte), and \<open>of_char c\<close> is the byte used as an array index. The tree owns its nodes and
  never shares one between two slots, so a node pointer is modelled by the node it points
  to, \<open>None\<close> being the nil pointer. Mutation in place is state passing: every operation
  returns the nodes and the pool it leaves behind. A run-time panic of the Go code is a
  value of type \<open>error\<close>, returned as \<open>Inl\<close>.
\<close>

subsection \<open>Data\<close>

datatype error = IndexOutOfRange | SliceBoundsOutOfRange | NilDereference | Deadlock

definition branchingFactor :: nat where
  "branchingFactor = 128"

text \<open>
  \<^verbatim>\<open>type node[T any] struct { terminal bool; value T; edges [branchingFactor]*node[T] }\<close>.
  The array is a list; that it has exactly \<open>branchingFactor\<close> slots is the predicate
  \<open>wf_node\<close> below, which Go's array type guarantees. The field \<^verbatim>\<open>value\<close> is written
  \<open>val\<close> and the method \<^verbatim>\<open>insert\<close> is written \<open>insert_node\<close>, the source's names
  being taken in Isabelle.
\<close>

datatype 'a node = Node (terminal: bool) (val: 'a) (edges: "'a node option list")

text \<open>
  \<^verbatim>\<open>type RadixTree[T any] struct { root *node[T]; pool sync.Pool }\<close>. The pool is
  Go's \<^verbatim>\<open>sync.Pool\<close> as it serves one goroutine between two garbage collections: a
  private slot and a shared list. \<^verbatim>\<open>Put\<close> fills the private slot when it is empty
  and pushes onto the shared list otherwise; \<^verbatim>\<open>Get\<close> empties the private slot, or
  else pops the shared list, or else calls the pool's \<^verbatim>\<open>New\<close> function, which
  allocates a zeroed node. So the node put first is handed out first, and the others
  last in, first out. The library may also drop pooled nodes at a garbage collection;
  the general theorems below hold for every pool content, hence for every node the pool
  could hand out, and the statements on recycled nodes are made for every order in which
  the pooled nodes can be handed out (\<open>reordered\<close>). The zero value \<^verbatim>\<open>*new(T)\<close> of
  the value type is \<open>0\<close>.
\<close>

record 'a Pool =
  privateSlot :: "'a node option"
  sharedList :: "'a node list"

record 'a RadixTree =
  root :: "'a node option"
  pool :: "'a Pool"

definition newNode :: "'a::zero node" where
  "newNode = Node False 0 (replicate branchingFactor None)"

definition emptyPool :: "'a Pool" where
  "emptyPool = \<lparr>privateSlot = None, sharedList = []\<rparr>"

definition poolGet :: "'a::zero Pool \<Rightarrow> 'a node \<times> 'a Pool" where
  "poolGet p =
     (case privateSlot p of
        Some n \<Rightarrow> (n, p\<lparr>privateSlot := None\<rparr>)
      | None \<Rightarrow>
          (case sharedList p of
             [] \<Rightarrow> (newNode, p)
           | n # rest \<Rightarrow> (n, p\<lparr>sharedList := rest\<rparr>)))"

definition poolPut :: "'a node \<Rightarrow> 'a Pool \<Rightarrow> 'a Pool" where
  "poolPut n p =
     (case privateSlot p of
        None \<Rightarrow> p\<lparr>privateSlot := Some n\<rparr>
      | Some m \<Rightarrow> p\<lparr>sharedList := n # sharedList p\<rparr>)"

text \<open>The pooled nodes, in the order in which \<open>poolGet\<close> would hand them out.\<close>

definition pooled :: "'a Pool \<Rightarrow> 'a node list" where
  "pooled p = (case privateSlot p of None \<Rightarrow> [] | Some n \<Rightarrow> [n]) @ sharedList p"

definition New :: "'a::zero RadixTree" where
  "New = \<lparr>root = Some newNode, pool = emptyPool\<rparr>"

subsection \<open>Insert and Get\<close>

text \<open>
  \<^verbatim>\<open>insert(n, key, value)\<close>: a nil \<open>n\<close> is replaced by a node from the pool; an empty
  key marks the node terminal and stores the value; otherwise the slot of the first byte
  is read (a panic when the byte is not below the array length), filled from the pool
  when it is nil, and the rest of the key is inserted below it.
\<close>

fun insert_node ::
  "'a::zero node option \<Rightarrow> string \<Rightarrow> 'a \<Rightarrow> 'a Pool \<Rightarrow> error + ('a node \<times> 'a Pool)"
where
  "insert_node n0 [] v p =
     (let (n, p1) = (case n0 of None \<Rightarrow> poolGet p | Some m \<Rightarrow> (m, p))
      in Inr (Node True v (edges n), p1))"
| "insert_node n0 (c # key) v p =
     (let (n, p1) = (case n0 of None \<Rightarrow> poolGet p | Some m \<Rightarrow> (m, p))
      in if of_char c < branchingFactor
         then
           let (child, p2) =
                 (case edges n ! of_char c of None \<Rightarrow> poolGet p1 | Some ch \<Rightarrow> (ch, p1))
           in case insert_node (Some child) key v p2 of
                Inl e \<Rightarrow> Inl e
              | Inr (child', p3) \<Rightarrow>
                  Inr (Node (terminal n) (val n) ((edges n)[of_char c := Some child']), p3)
         else Inl IndexOutOfRange)"

definition Insert :: "string \<Rightarrow> 'a::zero \<Rightarrow> 'a RadixTree \<Rightarrow> error + 'a RadixTree" where
  "Insert key v t =
     (case insert_node (root t) key v (pool t) of
        Inl e \<Rightarrow> Inl e
      | Inr (n, p) \<Rightarrow> Inr \<lparr>root = Some n, pool = p\<rparr>)"

text \<open>
  \<^verbatim>\<open>get(n, key)\<close> returns the node the key leads to, or nil; the nil test comes before
  the array access. \<^verbatim>\<open>Get\<close> returns \<^verbatim>\<open>(n.value, n.terminal)\<close>, or the zero value and
  false for nil.
\<close>

fun get :: "'a node option \<Rightarrow> string \<Rightarrow> error + 'a node option" where
  "get None key = Inr None"
| "get (Some n) [] = Inr (Some n)"
| "get (Some n) (c # key) =
     (if of_char c < branchingFactor then get (edges n ! of_char c) key
      else Inl IndexOutOfRange)"

definition Get :: "string \<Rightarrow> 'a::zero RadixTree \<Rightarrow> error + ('a \<times> bool)" where
  "Get key t =
     (case get (root t) key of
        Inl e \<Rightarrow> Inl e
      | Inr None \<Rightarrow> Inr (0, False)
      | Inr (Some n) \<Rightarrow> Inr (val n, terminal n))"

subsection \<open>Delete and release\<close>

text \<open>
  \<^verbatim>\<open>release(n)\<close> walks the slots in index order, releases every non-nil child and
  clears its slot, then puts \<open>n\<close> itself into the pool; neither the terminal flag nor the
  value of a node is touched here. Its result is always nil, which the callers write
  into the slot that held \<open>n\<close>.
\<close>

fun release :: "'a node \<Rightarrow> 'a Pool \<Rightarrow> 'a Pool" where
  "release (Node t v es) p =
     poolPut (Node t v (map (\<lambda>_. None) es))
       (fold (\<lambda>e q. case e of None \<Rightarrow> q | Some ch \<Rightarrow> release ch q) es p)"

definition isLeaf :: "'a node \<Rightarrow> bool" where
  "isLeaf n = list_all (\<lambda>e. e = None) (edges n)"

text \<open>
  \<^verbatim>\<open>delete(n, key, deleted)\<close>, with the flag \<^verbatim>\<open>*deleted\<close> passed in and returned. At
  the end of the key the node is cleared, the flag is set and the node is released
  (lines 93 to 98). Otherwise the child slot of the first byte is replaced by the result
  of the recursive call, and the node is released when it is not terminal, has no child
  and the flag is still unset, which sets the flag (lines 100 to 109).
\<close>

fun delete ::
  "'a::zero node option \<Rightarrow> string \<Rightarrow> bool \<Rightarrow> 'a Pool \<Rightarrow>
     error + ('a node option \<times> bool \<times> 'a Pool)"
where
  "delete None key deleted p = Inr (None, deleted, p)"
| "delete (Some n) [] deleted p = Inr (None, True, release (Node False 0 (edges n)) p)"
| "delete (Some n) (c # key) deleted p =
     (if of_char c < branchingFactor
      then case delete (edges n ! of_char c) key deleted p of
             Inl e \<Rightarrow> Inl e
           | Inr (child, deleted1, p1) \<Rightarrow>
               (let n1 = Node (terminal n) (val n) ((edges n)[of_char c := child])
                in if \<not> terminal n1 \<and> isLeaf n1 \<and> \<not> deleted1
                   then Inr (None, True, release n1 p1)
                   else Inr (Some n1, deleted1, p1))
      else Inl IndexOutOfRange)"

definition Delete :: "string \<Rightarrow> 'a::zero RadixTree \<Rightarrow> error + ('a RadixTree \<times> bool)" where
  "Delete key t =
     (case delete (root t) key False (pool t) of
        Inl e \<Rightarrow> Inl e
      | Inr (n, deleted, p) \<Rightarrow> Inr (\<lparr>root = n, pool = p\<rparr>, deleted))"

subsection \<open>Sequences of operations\<close>

text \<open>
  A caller's sequence of \<^verbatim>\<open>Insert\<close> and \<^verbatim>\<open>Delete\<close> calls, run from a given tree; a
  panic ends the run.
\<close>

datatype 'a op = OpInsert string 'a | OpDelete string

fun run :: "'a::zero op list \<Rightarrow> 'a RadixTree \<Rightarrow> error + 'a RadixTree" where
  "run [] t = Inr t"
| "run (OpInsert key v # ops) t =
     (case Insert key v t of Inl e \<Rightarrow> Inl e | Inr t' \<Rightarrow> run ops t')"
| "run (OpDelete key # ops) t =
     (case Delete key t of Inl e \<Rightarrow> Inl e | Inr (t', deleted) \<Rightarrow> run ops t')"

definition Get_after :: "'a::zero op list \<Rightarrow> string \<Rightarrow> error + ('a \<times> bool)" where
  "Get_after ops key = (case run ops New of Inl e \<Rightarrow> Inl e | Inr t \<Rightarrow> Get key t)"


definition Delete_after :: "'a::zero op list \<Rightarrow> string \<Rightarrow> error + ('a RadixTree \<times> bool)" where
  "Delete_after ops key = (case run ops New of Inl e \<Rightarrow> Inl e | Inr t \<Rightarrow> Delete key t)"

definition Node_after :: "'a::zero op list \<Rightarrow> string \<Rightarrow> error + 'a node option" where
  "Node_after ops key = (case run ops New of Inl e \<Rightarrow> Inl e | Inr t \<Rightarrow> get (root t) key)"

subsection \<open>What the array type and the key precondition say\<close>

text \<open>
  Every node of a Go tree has exactly \<open>branchingFactor\<close> slots. \<open>wf_node\<close> says so of a
  node and of everything below it, \<open>wf_tree\<close> of the root and of the pooled nodes.
  \<open>keyInRange\<close> is the caller's obligation of spec section 7: every byte of the key is
  below the fan-out width.
\<close>

fun wf_node :: "'a node \<Rightarrow> bool" where
  "wf_node (Node t v es) =
     (length es = branchingFactor \<and>
      list_all (\<lambda>e. case e of None \<Rightarrow> True | Some ch \<Rightarrow> wf_node ch) es)"

definition wf_ref :: "'a node option \<Rightarrow> bool" where
  "wf_ref r = (case r of None \<Rightarrow> True | Some n \<Rightarrow> wf_node n)"

definition wf_pool :: "'a Pool \<Rightarrow> bool" where
  "wf_pool p = (wf_ref (privateSlot p) \<and> list_all wf_node (sharedList p))"

definition wf_tree :: "'a RadixTree \<Rightarrow> bool" where
  "wf_tree t = (wf_ref (root t) \<and> wf_pool (pool t))"

definition keyInRange :: "string \<Rightarrow> bool" where
  "keyInRange key = list_all (\<lambda>c. of_char c < branchingFactor) key"

text \<open>The tree that holds the single key \<open>a\<close> with the value 1, and an empty pool.\<close>

definition tree_a :: "int RadixTree" where
  "tree_a =
     \<lparr>root = Some (Node False 0
        ((replicate branchingFactor None)
           [of_char CHR ''a'' := Some (Node True 1 (replicate branchingFactor None))])),
      pool = emptyPool\<rparr>"

text \<open>The tree that holds the keys \<open>a\<close> and \<open>b\<close> with the values 1 and 2.\<close>

definition tree_ab :: "int RadixTree" where
  "tree_ab =
     \<lparr>root = Some (Node False 0
        ((replicate branchingFactor None)
           [of_char CHR ''a'' := Some (Node True 1 (replicate branchingFactor None)),
            of_char CHR ''b'' := Some (Node True 2 (replicate branchingFactor None))])),
      pool = emptyPool\<rparr>"

subsection \<open>Every order of the pooled nodes\<close>

text \<open>
  Which pooled node \<^verbatim>\<open>sync.Pool\<close> hands out first is not part of its contract. A
  statement about recycled nodes is therefore made for the tree with its pooled nodes in
  every possible order: \<open>perms\<close> lists the permutations of a list, and \<open>reordered t\<close>
  lists the trees that differ from \<open>t\<close> only in the order in which the pool hands its
  nodes out. \<open>Get_after_Insert\<close> is an Insert followed by a Get on the tree it leaves.
\<close>

fun interleave :: "'a \<Rightarrow> 'a list \<Rightarrow> 'a list list" where
  "interleave x [] = [[x]]"
| "interleave x (y # ys) = (x # y # ys) # map ((#) y) (interleave x ys)"

fun perms :: "'a list \<Rightarrow> 'a list list" where
  "perms [] = [[]]"
| "perms (x # xs) = concat (map (interleave x) (perms xs))"

definition reordered :: "'a RadixTree \<Rightarrow> 'a RadixTree list" where
  "reordered t =
     map (\<lambda>xs. \<lparr>root = root t, pool = \<lparr>privateSlot = None, sharedList = xs\<rparr>\<rparr>)
       (perms (pooled (pool t)))"

definition Get_after_Insert ::
  "string \<Rightarrow> 'a::zero \<Rightarrow> string \<Rightarrow> 'a RadixTree \<Rightarrow> error + ('a \<times> bool)"
where
  "Get_after_Insert key v k t =
     (case Insert key v t of Inl e \<Rightarrow> Inl e | Inr t' \<Rightarrow> Get k t')"

subsection \<open>Traverse\<close>

text \<open>
  \<^verbatim>\<open>Traverse\<close> keeps a stack of node pointers and \<^verbatim>\<open>prefix\<close> compares pointers
  (\<^verbatim>\<open>e == stack[len(stack)-1]\<close>), so here the identity of a node matters. A node of
  the tree is identified by the slot indices that lead to it from the root: a stack entry
  is \<open>None\<close> for nil, or that path together with the node.
\<close>

type_synonym 'a ref = "(nat list \<times> 'a node) option"

definition hasChildren :: "'a node \<Rightarrow> bool" where
  "hasChildren n = list_ex (\<lambda>e. e \<noteq> None) (edges n)"

definition edge_ref :: "nat list \<Rightarrow> nat \<times> 'a node option \<Rightarrow> 'a ref" where
  "edge_ref path ie = map_option (\<lambda>ch. (path @ [fst ie], ch)) (snd ie)"

definition same_ref :: "'a ref \<Rightarrow> 'a ref \<Rightarrow> bool" where
  "same_ref a b = (map_option fst a = map_option fst b)"

text \<open>
  \<^verbatim>\<open>prefix(stack)\<close>: the slice expression \<^verbatim>\<open>stack[1:]\<close> panics on a stack of length 0.
  For each remaining entry the inner loop looks for the first slot that holds the pointer
  at the top of the stack and writes its index as a byte; reading the slots of a nil
  entry would be a nil dereference.
\<close>

definition prefix_step :: "'a ref \<Rightarrow> 'a ref \<Rightarrow> error + string" where
  "prefix_step tip r =
     (case r of
        None \<Rightarrow> Inl NilDereference
      | Some n \<Rightarrow>
          Inr (case find (\<lambda>ie. same_ref (edge_ref (fst n) ie) tip) (enumerate 0 (edges (snd n))) of
                 None \<Rightarrow> []
               | Some ie \<Rightarrow> [char_of (fst ie)]))"

fun prefix_loop :: "'a ref \<Rightarrow> 'a ref list \<Rightarrow> string \<Rightarrow> error + string" where
  "prefix_loop tip [] buffer = Inr buffer"
| "prefix_loop tip (r # rs) buffer =
     (case prefix_step tip r of
        Inl e \<Rightarrow> Inl e
      | Inr s \<Rightarrow> prefix_loop tip rs (buffer @ s))"

definition prefix :: "'a ref list \<Rightarrow> error + string" where
  "prefix stack =
     (if length stack < 1 then Inl SliceBoundsOutOfRange
      else prefix_loop (last stack) (tl stack) [])"

definition children :: "nat list \<times> 'a node \<Rightarrow> 'a ref list" where
  "children r = filter (\<lambda>e. e \<noteq> None) (map (edge_ref (fst r)) (enumerate 0 (edges (snd r))))"

definition ref_size :: "'a ref \<Rightarrow> nat" where
  "ref_size r = (case r of None \<Rightarrow> 1 | Some n \<Rightarrow> Suc (size (snd n)))"

text \<open>
  The loop of \<^verbatim>\<open>Traverse\<close> (lines 146 to 181): pop the last entry, skip nil, call the
  visitor with \<^verbatim>\<open>prefix(stack)\<close> for a terminal node, and, for a node with children,
  start a goroutine that pushes the non-nil children onto the stack the loop is reading.
  The visitor's calls are recorded in order in \<open>visited\<close>.

  When the goroutine runs is up to the scheduler, so the loop takes a schedule: a list of
  booleans, one for each goroutine it starts. \<open>True\<close> says that the goroutine has pushed
  its children before the loop tests its condition again; \<open>False\<close>, and a used-up list,
  that it runs only after the loop has ended, so that the loop never sees its children.
  Interleavings finer than that, and the unsynchronised access to the stack itself, are
  beyond this model.

  For a node with more than 10 children the loop calls \<^verbatim>\<open>wg.Wait()\<close> (line 178). The
  counter of the wait group still holds the unit added at line 143, which is given back
  only after the loop (line 183), so this call never returns, in any schedule: the result
  \<open>Deadlock\<close>. The wait at the end (lines 183 and 184) only delays the return.
\<close>

definition pushes_first :: "bool list \<Rightarrow> bool" where
  "pushes_first sched = (case sched of [] \<Rightarrow> False | b # rest \<Rightarrow> b)"

function traverse_loop ::
  "bool list \<Rightarrow> 'a ref list \<Rightarrow> (string \<times> 'a) list \<Rightarrow> error + (string \<times> 'a) list"
where
  "traverse_loop sched stack visited =
     (if stack = [] then Inr visited
      else
        let n = last stack; stack1 = butlast stack
        in case n of
             None \<Rightarrow> traverse_loop sched stack1 visited
           | Some r \<Rightarrow>
               (case (if terminal (snd r)
                      then (case prefix stack1 of
                              Inl e \<Rightarrow> Inl e
                            | Inr k \<Rightarrow> Inr (visited @ [(k, val (snd r))]))
                      else Inr visited) of
                  Inl e \<Rightarrow> Inl e
                | Inr visited1 \<Rightarrow>
                    if hasChildren (snd r)
                    then if 10 < length (children r) then Inl Deadlock
                         else traverse_loop (tl sched)
                                (if pushes_first sched then stack1 @ children r else stack1)
                                visited1
                    else traverse_loop sched stack1 visited1))"
  by pat_completeness auto

definition Traverse :: "bool list \<Rightarrow> 'a RadixTree \<Rightarrow> error + (string \<times> 'a) list" where
  "Traverse sched t = traverse_loop sched [map_option (\<lambda>n. ([], n)) (root t)] []"

definition Traverse_after :: "bool list \<Rightarrow> 'a::zero op list \<Rightarrow> error + (string \<times> 'a) list" where
  "Traverse_after sched ops =
     (case run ops New of Inl e \<Rightarrow> Inl e | Inr t \<Rightarrow> Traverse sched t)"

section \<open>Termination of the traversal\<close>

text \<open>
  The sizes of the stacked nodes decrease: a popped node is replaced by its children,
  whose sizes add up to less than its own.
\<close>

lemma ref_size_Some: "ref_size (Some (q, n)) = Suc (size n)"
  by (simp add: ref_size_def)

lemma size_children_aux:
  "sum_list (map ref_size (filter (\<lambda>e. e \<noteq> None) (map (edge_ref p) (enumerate k es))))
     \<le> size_list (size_option size) es"
proof (induction es arbitrary: k)
  case Nil
  show ?case by simp
next
  case (Cons e es)
  show ?case using Cons.IH [of "Suc k"]
    by (cases e) (simp_all add: ref_size_Some edge_ref_def)
qed

lemma size_children: "sum_list (map ref_size (children r)) < ref_size (Some r)"
proof (cases r)
  case (Pair p n)
  then show ?thesis
    using size_children_aux [of p 0 "edges n"]
    by (cases n) (simp add: children_def ref_size_Some)
qed

lemma ref_size_pos: "0 < ref_size r"
  by (simp add: ref_size_def split: option.splits)

lemma size_butlast:
  "stack \<noteq> [] \<Longrightarrow> sum_list (map ref_size (butlast stack)) < sum_list (map ref_size stack)"
  by (cases stack rule: rev_cases) (simp_all add: ref_size_pos)

lemma size_replace_by_children:
  assumes "stack \<noteq> []" and "Some r = last stack"
  shows "sum_list (map ref_size (butlast stack)) + sum_list (map ref_size (children r))
         < sum_list (map ref_size stack)"
  using assms size_children [of r] by (cases stack rule: rev_cases) simp_all

termination traverse_loop
  apply (relation "measure (\<lambda>(sched, stack, visited). sum_list (map ref_size stack))")
     apply simp
    apply (simp add: size_butlast)
   apply (simp add: size_butlast size_replace_by_children)
  apply (simp add: size_butlast)
  done

section \<open>Well-formed trees stay well-formed\<close>

lemma wf_node_edges:
  "wf_node n = (length (edges n) = branchingFactor \<and> list_all wf_ref (edges n))"
  by (cases n) (simp add: wf_ref_def [abs_def])

lemma wf_ref_simps [simp]: "wf_ref None" "wf_ref (Some n) = wf_node n"
  by (simp_all add: wf_ref_def)

lemma wf_newNode: "wf_node newNode"
  by (simp add: newNode_def list_all_iff)

lemma wf_emptyPool: "wf_pool emptyPool"
  by (simp add: wf_pool_def emptyPool_def)

lemma wf_New: "wf_tree New"
  by (simp add: wf_tree_def New_def wf_newNode wf_emptyPool)

lemma wf_poolGet:
  assumes "wf_pool p" and "poolGet p = (n, p')"
  shows "wf_node n \<and> wf_pool p'"
  using assms
  by (auto simp: poolGet_def wf_pool_def wf_newNode split: option.splits list.splits)

lemma wf_poolPut: "wf_node n \<Longrightarrow> wf_pool p \<Longrightarrow> wf_pool (poolPut n p)"
  by (auto simp: poolPut_def wf_pool_def split: option.splits)

lemma wf_acquire:
  assumes "wf_ref n0" and "wf_pool p"
    and "(case n0 of None \<Rightarrow> poolGet p | Some m \<Rightarrow> (m, p)) = (n, p1)"
  shows "wf_node n" and "wf_pool p1"
proof -
  have "wf_node n \<and> wf_pool p1"
  proof (cases n0)
    case None
    with assms(3) have "poolGet p = (n, p1)" by simp
    from wf_poolGet [OF assms(2) this] show ?thesis .
  next
    case (Some m)
    with assms show ?thesis by simp
  qed
  then show "wf_node n" and "wf_pool p1" by simp_all
qed

lemma wf_child:
  assumes "wf_node n" and "i < branchingFactor"
  shows "wf_ref (edges n ! i)"
  using assms by (simp add: wf_node_edges list_all_length)

lemma wf_update:
  assumes "wf_node n" and "wf_ref r"
  shows "wf_node (Node t v ((edges n)[i := r]))"
  using assms
  by (auto simp: wf_node_edges list_all_iff dest: set_update_subset_insert [THEN subsetD])

text \<open>
  Inserting a key in range into a well-formed node succeeds, keeps everything well-formed,
  and the key then leads to a terminal node that holds the value.
\<close>

lemma insert_node_ok:
  assumes "keyInRange key" and "wf_ref n0" and "wf_pool p"
  shows "\<exists>n' p' m. insert_node n0 key v p = Inr (n', p') \<and> wf_node n' \<and> wf_pool p'
           \<and> get (Some n') key = Inr (Some m) \<and> terminal m \<and> val m = v"
  using assms
proof (induction key arbitrary: n0 p)
  case Nil
  obtain n p1 where g: "(case n0 of None \<Rightarrow> poolGet p | Some m \<Rightarrow> (m, p)) = (n, p1)"
    by (cases "case n0 of None \<Rightarrow> poolGet p | Some m \<Rightarrow> (m, p)")
  have w: "wf_node n" "wf_pool p1"
    using wf_acquire [OF Nil.prems(2,3) g] by simp_all
  from w(1) have "wf_node (Node True v (edges n))" by (simp add: wf_node_edges)
  moreover have "insert_node n0 [] v p = Inr (Node True v (edges n), p1)"
    using g by simp
  ultimately show ?case using w(2) by simp
next
  case (Cons c key)
  obtain n p1 where g: "(case n0 of None \<Rightarrow> poolGet p | Some m \<Rightarrow> (m, p)) = (n, p1)"
    by (cases "case n0 of None \<Rightarrow> poolGet p | Some m \<Rightarrow> (m, p)")
  have w: "wf_node n" "wf_pool p1"
    using wf_acquire [OF Cons.prems(2,3) g] by simp_all
  from Cons.prems have c: "of_char c < branchingFactor" and k: "keyInRange key"
    by (simp_all add: keyInRange_def)
  obtain child p2 where h:
    "(case edges n ! of_char c of None \<Rightarrow> poolGet p1 | Some ch \<Rightarrow> (ch, p1)) = (child, p2)"
    by (cases "case edges n ! of_char c of None \<Rightarrow> poolGet p1 | Some ch \<Rightarrow> (ch, p1)")
  have wc: "wf_node child \<and> wf_pool p2"
    using wf_acquire [OF wf_child [OF w(1) c] w(2) h] by simp
  then have "wf_ref (Some child)" by simp
  from Cons.IH [OF k this, of p2] wc obtain child' p3 m where r:
    "insert_node (Some child) key v p2 = Inr (child', p3)" "wf_node child'"
    "wf_pool p3" "get (Some child') key = Inr (Some m)" "terminal m" "val m = v"
    by blast
  let ?n' = "Node (terminal n) (val n) ((edges n)[of_char c := Some child'])"
  have i: "insert_node n0 (c # key) v p = Inr (?n', p3)"
    using g h c r(1) by simp
  have wn: "wf_node ?n'" using w(1) r(2) by (intro wf_update) simp_all
  have len: "of_char c < length (edges n)" using w(1) c by (simp add: wf_node_edges)
  have "get (Some ?n') (c # key) = Inr (Some m)"
    using c len r(4) by simp
  with i wn r show ?case by blast
qed


lemma fold_preserves:
  assumes "\<And>x q. x \<in> set xs \<Longrightarrow> P q \<Longrightarrow> P (f x q)" and "P q"
  shows "P (fold f xs q)"
  using assms by (induction xs arbitrary: q) simp_all

lemma wf_release: "wf_node n \<Longrightarrow> wf_pool p \<Longrightarrow> wf_pool (release n p)"
proof (induction n p rule: release.induct)
  case (1 t v es p)
  have ch: "\<And>e. e \<in> set es \<Longrightarrow> wf_ref e"
    using "1.prems"(1) by (simp add: wf_node_edges list_all_iff)
  have "wf_pool (fold (\<lambda>e q. case e of None \<Rightarrow> q | Some ch \<Rightarrow> release ch q) es p)"
  proof (rule fold_preserves [where P = "wf_pool"])
    fix e :: "'a node option" and q :: "'a Pool"
    assume e: "e \<in> set es" and q: "wf_pool q"
    show "wf_pool (case e of None \<Rightarrow> q | Some ch \<Rightarrow> release ch q)"
    proof (cases e)
      case None
      with q show ?thesis by simp
    next
      case (Some x)
      with ch [OF e] have "wf_node x" by simp
      from "1.IH" [OF e Some this q] Some show ?thesis by simp
    qed
  qed (rule "1.prems"(2))
  moreover have "wf_node (Node t v (map (\<lambda>_. None) es))"
    using "1.prems"(1) by (simp add: list_all_iff)
  ultimately show ?case by (simp add: wf_poolPut)
qed

lemma delete_ok:
  assumes "keyInRange key" and "wf_ref n0" and "wf_pool p"
  shows "\<exists>n' d' p'. delete n0 key d p = Inr (n', d', p') \<and> wf_ref n' \<and> wf_pool p'"
  using assms
proof (induction key arbitrary: n0)
  case Nil
  show ?case
  proof (cases n0)
    case None
    with Nil show ?thesis by simp
  next
    case (Some n)
    with Nil.prems have "wf_node (Node False 0 (edges n))" by (simp add: wf_node_edges)
    from wf_release [OF this Nil.prems(3)] Some show ?thesis
      by (auto simp del: release.simps)
  qed
next
  case (Cons c key)
  from Cons.prems have c: "of_char c < branchingFactor" and k: "keyInRange key"
    by (simp_all add: keyInRange_def)
  show ?case
  proof (cases n0)
    case None
    with Cons.prems show ?thesis by simp
  next
    case (Some n)
    with Cons.prems have wn: "wf_node n" by simp
    from Cons.IH [OF k wf_child [OF wn c] Cons.prems(3)] obtain child d1 p1 where r:
      "delete (edges n ! of_char c) key d p = Inr (child, d1, p1)" "wf_ref child"
      "wf_pool p1"
      by blast
    let ?n1 = "Node (terminal n) (val n) ((edges n)[of_char c := child])"
    have w1: "wf_node ?n1" using wn r(2) by (rule wf_update)
    show ?thesis
    proof (cases "\<not> terminal ?n1 \<and> isLeaf ?n1 \<and> \<not> d1")
      case True
      then have "delete n0 (c # key) d p = Inr (None, True, release ?n1 p1)"
        using Some c r(1) by (simp add: Let_def isLeaf_def del: release.simps)
      with wf_release [OF w1 r(3)] show ?thesis by (auto simp del: release.simps)
    next
      case False
      then have "delete n0 (c # key) d p = Inr (Some ?n1, d1, p1)"
        using Some c r(1) by (auto simp add: Let_def isLeaf_def simp del: release.simps)
      with w1 r(3) show ?thesis by simp
    qed
  qed
qed

text \<open>
  A call of \<open>delete\<close> that leaves the flag unset has changed neither the nodes nor the
  pool; a call that finds the node of the key sets the flag.
\<close>

lemma delete_unchanged:
  "delete n0 key d p = Inr (n', False, p') \<Longrightarrow> n' = n0 \<and> p' = p \<and> \<not> d"
proof (induction n0 key d p arbitrary: n' p' rule: delete.induct)
  case (1 key deleted p)
  then show ?case by simp
next
  case (2 n deleted p)
  then show ?case by simp
next
  case (3 n c key deleted p)
  from "3.prems" have c: "of_char c < branchingFactor"
    by (simp split: if_splits)
  from "3.prems" c obtain child d1 p1 where r:
    "delete (edges n ! of_char c) key deleted p = Inr (child, d1, p1)"
    by (auto split: sum.splits)
  let ?n1 = "Node (terminal n) (val n) ((edges n)[of_char c := child])"
  from "3.prems" c r have f: "d1 = False" "n' = Some ?n1" "p' = p1"
    by (auto simp add: Let_def simp del: release.simps split: if_splits)
  from "3.IH" [OF c] r f(1) have "child = edges n ! of_char c \<and> p1 = p \<and> \<not> deleted"
    by simp
  with f show ?case by simp
qed

lemma delete_present:
  "get n0 key = Inr (Some m) \<Longrightarrow> delete n0 key d p = Inr (n', d', p') \<Longrightarrow> d'"
  by (induction n0 key d p arbitrary: n' d' p' rule: delete.induct)
     (auto simp add: Let_def simp del: release.simps split: if_splits sum.splits)

lemma get_in_range: "keyInRange key \<Longrightarrow> \<exists>r. get n0 key = Inr r"
  by (induction n0 key rule: get.induct) (simp_all add: keyInRange_def)

section \<open>The operations on well-formed trees\<close>

lemma Insert_ok:
  assumes "keyInRange key" and "wf_tree t"
  shows "\<exists>t'. Insert key v t = Inr t' \<and> wf_tree t' \<and> root t' \<noteq> None
           \<and> Get key t' = Inr (v, True)"
proof -
  from assms(2) have "wf_ref (root t)" "wf_pool (pool t)"
    by (simp_all add: wf_tree_def)
  from insert_node_ok [OF assms(1) this, of v] obtain n' p' m where r:
    "insert_node (root t) key v (pool t) = Inr (n', p')" "wf_node n'" "wf_pool p'"
    "get (Some n') key = Inr (Some m)" "terminal m" "val m = v"
    by blast
  then show ?thesis by (simp add: Insert_def Get_def wf_tree_def)
qed

lemma Delete_ok:
  assumes "keyInRange key" and "wf_tree t"
  shows "\<exists>t' d. Delete key t = Inr (t', d) \<and> wf_tree t'"
proof -
  from assms(2) have "wf_ref (root t)" "wf_pool (pool t)"
    by (simp_all add: wf_tree_def)
  from delete_ok [OF assms(1) this, of False] show ?thesis
    by (auto simp: Delete_def wf_tree_def)
qed

lemma Get_ok: "keyInRange key \<Longrightarrow> \<exists>r. Get key t = Inr r"
  using get_in_range [of key "root t"] by (auto simp: Get_def split: option.splits)

text \<open>
  Every tree reached from \<open>New\<close> by operations on keys in range is well-formed, so the
  hypothesis \<open>wf_tree\<close> of the theorems below excludes no tree the code can build.
\<close>

lemma wf_run:
  assumes "list_all (\<lambda>x. case x of OpInsert key v \<Rightarrow> keyInRange key
                               | OpDelete key \<Rightarrow> keyInRange key) ops"
    and "wf_tree t"
  shows "\<exists>t'. run ops t = Inr t' \<and> wf_tree t'"
  using assms
proof (induction ops arbitrary: t)
  case Nil
  then show ?case by simp
next
  case (Cons x ops)
  show ?case
  proof (cases x)
    case (OpInsert key v)
    with Cons.prems have k: "keyInRange key" by simp
    from Insert_ok [OF k Cons.prems(2), of v] obtain t1 where
      "Insert key v t = Inr t1" "wf_tree t1" by blast
    with Cons.IH [of t1] Cons.prems(1) OpInsert show ?thesis by simp
  next
    case (OpDelete key)
    with Cons.prems have k: "keyInRange key" by simp
    from Delete_ok [OF k Cons.prems(2)] obtain t1 d where
      "Delete key t = Inr (t1, d)" "wf_tree t1" by blast
    with Cons.IH [of t1] Cons.prems(1) OpDelete show ?thesis by simp
  qed
qed

text \<open>
  Insert, Get and Delete return on every key in range, and Delete reports a stored key as
  deleted; an Insert of a key with a byte at or above the width panics with an index out
  of range, and so does a Get that reaches such a byte at a node.
\<close>

lemma operations_total_in_range:
  assumes "keyInRange key" and "wf_tree t"
  shows "(\<exists>t'. Insert key v t = Inr t' \<and> wf_tree t') \<and> (\<exists>r. Get key t = Inr r)
         \<and> (\<exists>t' d. Delete key t = Inr (t', d) \<and> wf_tree t')"
  using Insert_ok [OF assms, of v] Get_ok [OF assms(1), of t] Delete_ok [OF assms] by blast

lemma Delete_stored_returns_true:
  assumes "Get key t = Inr (v, True)" and "Delete key t = Inr (t', d)"
  shows "d"
proof -
  from assms(1) obtain m where "get (root t) key = Inr (Some m)"
    by (auto simp: Get_def split: sum.splits option.splits)
  moreover from assms(2) obtain n' p' where "delete (root t) key False (pool t) = Inr (n', d, p')"
    by (auto simp: Delete_def split: sum.splits)
  ultimately show ?thesis by (rule delete_present)
qed

lemma insert_out_of_range:
  "\<not> keyInRange key \<Longrightarrow> insert_node n0 key v p = Inl IndexOutOfRange"
proof (induction key arbitrary: n0 p)
  case Nil
  then show ?case by (simp add: keyInRange_def)
next
  case (Cons c key)
  show ?case
  proof (cases "of_char c < branchingFactor")
    case True
    with Cons.prems have "\<not> keyInRange key" by (simp add: keyInRange_def)
    from Cons.IH [OF this] True show ?thesis
      by (simp add: case_prod_beta Let_def)
  next
    case False
    then show ?thesis by (simp add: case_prod_beta Let_def)
  qed
qed

lemma Insert_out_of_range: "\<not> keyInRange key \<Longrightarrow> Insert key v t = Inl IndexOutOfRange"
  by (simp add: Insert_def insert_out_of_range)

lemma Get_out_of_range: "Get [CHR 0x80] (New :: int RadixTree) = Inl IndexOutOfRange"
  by code_simp

lemma tree_a_run: "run [OpInsert ''a'' 1] New = Inr tree_a"
  by code_simp

text \<open>
  Whenever the root is terminal, the first iteration of the traversal pops it, finds the
  stack empty and panics in \<^verbatim>\<open>prefix\<close>.
\<close>

lemma Traverse_terminal_root:
  "terminal n \<Longrightarrow> Traverse sched \<lparr>root = Some n, pool = p\<rparr> = Inl SliceBoundsOutOfRange"
  by (subst Traverse_def, subst traverse_loop.simps) (simp add: prefix_def)

text \<open>
  A Delete of a non-empty key keeps the root whenever the root is terminal or has a child:
  a slot of the root is emptied only by a release, which sets the flag.
\<close>

lemma Delete_keeps_root:
  assumes "Delete key t = Inr (t', d)" and "key \<noteq> []" and "root t = Some n"
    and "terminal n \<or> \<not> isLeaf n"
  shows "root t' \<noteq> None"
proof -
  from assms(2) obtain c ks where key: "key = c # ks" by (cases key) auto
  from assms(1,3) key obtain r' p' where
    del: "delete (Some n) (c # ks) False (pool t) = Inr (r', d, p')" and r': "root t' = r'"
    by (auto simp: Delete_def split: sum.splits)
  from del have c: "of_char c < branchingFactor" by (simp split: if_splits)
  from del c obtain child d1 p1 where
    rec: "delete (edges n ! of_char c) ks False (pool t) = Inr (child, d1, p1)"
    by (auto split: sum.splits)
  let ?n1 = "Node (terminal n) (val n) ((edges n)[of_char c := child])"
  have "\<not> (\<not> terminal ?n1 \<and> isLeaf ?n1 \<and> \<not> d1)"
  proof
    assume h: "\<not> terminal ?n1 \<and> isLeaf ?n1 \<and> \<not> d1"
    then have "d1 = False" by simp
    with rec delete_unchanged [of "edges n ! of_char c" ks False "pool t" child p1]
    have "child = edges n ! of_char c" by simp
    then have "(edges n)[of_char c := child] = edges n" by simp
    with h have "\<not> terminal n \<and> isLeaf n" by (simp add: isLeaf_def)
    with assms(4) show False by simp
  qed
  with del c rec have "r' = Some ?n1"
    by (auto simp add: Let_def simp del: release.simps split: if_splits)
  with r' show ?thesis by simp
qed

lemma tree_ab_run: "run [OpInsert ''a'' 1, OpInsert ''b'' 2] New = Inr tree_ab"
  by code_simp

text \<open>Two pooled nodes can be handed out in two orders, and \<open>perms\<close> lists both.\<close>

lemma perms_two: "perms [x, y] = [[x, y], [y, x]]"
  by simp

text \<open>
  With the pool in its own order, the private slot first, the stale node of \<open>ab\<close> becomes
  the node of \<open>x\<close>.
\<close>

lemma recycled_node_in_pool_order:
  "Get_after [OpInsert ''a'' 1, OpInsert ''ab'' 2, OpDelete ''a'', OpInsert ''xyz'' 5] ''x''
     = Inr (2::int, True)
   \<and> Get_after [OpInsert ''a'' 1, OpInsert ''ab'' 2, OpDelete ''a'', OpInsert ''xyz'' 5] ''xy''
     = Inr (0::int, False)"
  by code_simp

text \<open>
  In the same way, after inserting \<open>a\<close> and deleting the empty key, the stale node of \<open>a\<close>
  is handed out first and becomes the root of the next Insert.
\<close>

lemma recycled_root_in_pool_order:
  "Get_after [OpInsert ''a'' 1, OpDelete [], OpInsert ''go'' 4] [] = Inr (1::int, True)
   \<and> Get_after [OpInsert ''a'' 1, OpDelete [], OpInsert ''go'' 4] ''go'' = Inr (4::int, True)"
  by code_simp

section \<open>Deleting a key\<close>

text \<open>
  C1. After inserting \<open>a\<close>, \<open>ab\<close>, \<open>abc\<close> with the values 1, 2, 3 and deleting \<open>ab\<close>, the
  spec expects \<open>ab\<close> to be gone and \<open>a\<close> and \<open>abc\<close> to be kept. The code keeps \<open>a\<close> and
  removes \<open>ab\<close>, but it releases the whole subtree below \<open>ab\<close>: \<open>abc\<close> is lost too.
\<close>

theorem C1_delete_ab_loses_abc:
  "Get_after [OpInsert ''a'' 1, OpInsert ''ab'' 2, OpInsert ''abc'' 3, OpDelete ''ab''] ''ab''
     = Inr (0::int, False)
   \<and> Get_after [OpInsert ''a'' 1, OpInsert ''ab'' 2, OpInsert ''abc'' 3, OpDelete ''ab''] ''a''
     = Inr (1::int, True)
   \<and> Get_after [OpInsert ''a'' 1, OpInsert ''ab'' 2, OpInsert ''abc'' 3, OpDelete ''ab''] ''abc''
     = Inr (0::int, False)"
  by code_simp

text \<open>
  C2. Delete is specified to return true exactly when the key was stored. On a new tree
  neither the empty key nor \<open>x\<close> is stored, yet Delete returns true for both: the end of
  the key sets the flag without looking at the terminal flag of the node, and releasing
  an empty node on the way back sets it as well.
\<close>

theorem C2_delete_reports_absent_key:
  "Get_after [] [] = Inr (0::int, False)
   \<and> map_sum id snd (Delete_after ([]::int op list) []) = Inr True
   \<and> Get_after [] ''x'' = Inr (0::int, False)
   \<and> map_sum id snd (Delete_after ([]::int op list) ''x'') = Inr True"
  by code_simp

text \<open>
  C3. The pruning invariant asks that no node other than the root is both non-terminal
  and childless. After inserting \<open>ab\<close> and deleting it again, the node of \<open>a\<close> is still
  reachable from the root, is not terminal and has no child: the release on the way back
  is guarded by the flag being unset, and the end of the key has just set it.
\<close>

theorem C3_dangling_node_after_delete:
  "map_sum id (map_option (\<lambda>n. (terminal n, isLeaf n)))
     (Node_after [OpInsert ''ab'' (2::int), OpDelete ''ab''] ''a'') = Inr (Some (False, True))"
  by code_simp

section \<open>The root reference\<close>

text \<open>
  C4, as stated: the root reference is never empty. It fails: deleting the only key of a
  tree that stores the empty key releases the root, and the root reference is nil
  afterwards (the released node is in the pool).
\<close>

theorem C4_root_released_by_delete:
  "run [OpInsert [] (1::int), OpDelete []] New
     = Inr \<lparr>root = None, pool = \<lparr>privateSlot = Some newNode, sharedList = []\<rparr>\<rparr>"
  by code_simp

text \<open>
  C4, amended: the root reference is non-empty in a new tree and after every Insert that
  returns, whatever the tree was before; a Delete of a non-empty key from a tree whose
  root is terminal or has a child leaves the root reference non-empty, whatever it
  returns; and a Delete that returns false leaves the root reference and the pool as they
  were.
\<close>

theorem C4_root_present_after_insert:
  "root (New :: 'a::zero RadixTree) \<noteq> None
   \<and> (\<forall>t'. Insert key v t = Inr t' \<longrightarrow> root t' \<noteq> None)
   \<and> (\<forall>t' d n. Delete key t = Inr (t', d) \<and> key \<noteq> [] \<and> root t = Some n
          \<and> (terminal n \<or> \<not> isLeaf n) \<longrightarrow> root t' \<noteq> None)
   \<and> (\<forall>t'. Delete key t = Inr (t', False) \<longrightarrow> root t' = root t \<and> pool t' = pool t)"
proof -
  have a: "root (New :: 'a RadixTree) \<noteq> None" by (simp add: New_def)
  have b: "\<forall>t'. Insert key v t = Inr t' \<longrightarrow> root t' \<noteq> None"
    by (auto simp: Insert_def split: sum.splits)
  have c: "\<forall>t' d n. Delete key t = Inr (t', d) \<and> key \<noteq> [] \<and> root t = Some n
          \<and> (terminal n \<or> \<not> isLeaf n) \<longrightarrow> root t' \<noteq> None"
    using Delete_keeps_root by blast
  have d: "\<forall>t'. Delete key t = Inr (t', False) \<longrightarrow> root t' = root t \<and> pool t' = pool t"
    by (auto simp: Delete_def split: sum.splits dest: delete_unchanged)
  from a b c d show ?thesis by blast
qed

text \<open>
  C4, witness: on the tree that holds \<open>a\<close>, Insert of \<open>b\<close> returns a tree with a root, and
  Delete of the absent key \<open>b\<close> returns false and the same root and pool; on the tree that
  holds \<open>a\<close> and \<open>b\<close>, whose root has children, Delete of \<open>a\<close> returns true and keeps the
  root.
\<close>

theorem C4_root_present_after_insert_witness:
  "(\<exists>t'. Insert ''b'' 2 tree_a = Inr t' \<and> root t' \<noteq> None)
   \<and> (\<exists>t' n. Delete ''a'' tree_ab = Inr (t', True) \<and> ''a'' \<noteq> [] \<and> root tree_ab = Some n
          \<and> \<not> isLeaf n \<and> root t' \<noteq> None)
   \<and> (\<exists>t'. Delete ''b'' tree_a = Inr (t', False)
            \<and> root t' = root tree_a \<and> pool t' = pool tree_a)"
proof -
  have i: "\<not> isl (Insert ''b'' 2 tree_a)" by code_simp
  then obtain t1 where t1: "Insert ''b'' 2 tree_a = Inr t1"
    by (cases "Insert ''b'' 2 tree_a") auto
  have d: "map_sum id snd (Delete ''b'' tree_a) = Inr False" by code_simp
  then obtain t2 where t2: "Delete ''b'' tree_a = Inr (t2, False)"
    by (cases "Delete ''b'' tree_a") auto
  have e: "map_sum id snd (Delete ''a'' tree_ab) = Inr True" by code_simp
  then obtain t3 where t3: "Delete ''a'' tree_ab = Inr (t3, True)"
    by (cases "Delete ''a'' tree_ab") auto
  have r: "(case root tree_ab of None \<Rightarrow> False | Some n \<Rightarrow> \<not> isLeaf n)" by code_simp
  then obtain n where n: "root tree_ab = Some n" "\<not> isLeaf n"
    by (cases "root tree_ab") auto
  have k: "''a'' \<noteq> []" by simp
  from C4_root_present_after_insert [of "''b''" 2 tree_a] t1 t2
  have p1: "root t1 \<noteq> None" and p2: "root t2 = root tree_a \<and> pool t2 = pool tree_a"
    by blast+
  from C4_root_present_after_insert [of "''a''" 0 tree_ab] t3 n k
  have p3: "root t3 \<noteq> None" by blast
  from t1 t2 t3 n k p1 p2 p3 show ?thesis by blast
qed

section \<open>Deleting an absent key\<close>

text \<open>
  C5. Deleting a key that is not stored should return false and change nothing. In the
  tree that holds only \<open>abc\<close> the key \<open>ab\<close> is not stored; Delete of \<open>ab\<close> returns true
  and releases the node of \<open>ab\<close> with everything below it, so \<open>abc\<close> is no longer found.
\<close>

theorem C5_delete_absent_prefix_key:
  "Get_after [OpInsert ''abc'' 3] ''ab'' = Inr (0::int, False)
   \<and> map_sum id snd (Delete_after [OpInsert ''abc'' (3::int)] ''ab'') = Inr True
   \<and> Get_after [OpInsert ''abc'' 3] ''abc'' = Inr (3::int, True)
   \<and> Get_after [OpInsert ''abc'' 3, OpDelete ''ab''] ''abc'' = Inr (0::int, False)"
  by code_simp

section \<open>Nodes that come back from the pool\<close>

text \<open>
  C6. A node handed out by the pool should be non-terminal, hold the zero value and have
  empty slots. \<open>release\<close> clears the slots of every node it pools, but only the node at
  the end of the deleted key has its flag and value reset. After inserting \<open>a\<close> and \<open>ab\<close>
  and deleting \<open>a\<close>, the pool holds two nodes with empty slots, and one of them, the
  node of \<open>ab\<close>, is still terminal with the value 2. The next Insert of \<open>xyz\<close> takes both
  nodes out of the pool. In whichever order the pool hands them out, a key that was never
  inserted is then found with the value 2: \<open>x\<close> when the stale node comes first, \<open>xy\<close>
  when it comes second.
\<close>

theorem C6_recycled_node_keeps_terminal:
  "map_sum id
     (\<lambda>t. (list_ex (\<lambda>n. terminal n \<and> val n = 2) (pooled (pool t)),
           map isLeaf (pooled (pool t)),
           map (\<lambda>t'. (Get_after_Insert ''xyz'' 5 ''x'' t', Get_after_Insert ''xyz'' 5 ''xy'' t'))
             (reordered t)))
     (run [OpInsert ''a'' 1, OpInsert ''ab'' 2, OpDelete ''a''] New)
   = Inr (True, [True, True],
          [(Inr (2::int, True), Inr (0, False)), (Inr (0, False), Inr (2, True))])"
  by code_simp

section \<open>Traversal\<close>

text \<open>
  C7. Traverse should call the visitor once for every stored key, with the key rebuilt
  from the path. When the empty key is stored, the root is popped, the stack is empty, and
  \<^verbatim>\<open>prefix\<close> slices \<^verbatim>\<open>stack[1:]\<close> of a stack of length 0: the traversal panics before the
  visitor is called at all, whatever the schedule.
\<close>

theorem C7_traverse_panics_on_empty_key:
  "Get_after [OpInsert [] 1] [] = Inr (1::int, True)
   \<and> Traverse_after sched [OpInsert [] (1::int)] = Inl SliceBoundsOutOfRange"
proof -
  have g: "Get_after [OpInsert [] 1] [] = Inr (1::int, True)" by code_simp
  have r: "run [OpInsert [] (1::int)] New
             = Inr \<lparr>root = Some (Node True 1 (replicate branchingFactor None)), pool = emptyPool\<rparr>"
    by code_simp
  have "Traverse_after sched [OpInsert [] (1::int)] = Inl SliceBoundsOutOfRange"
    unfolding Traverse_after_def r by (simp add: Traverse_terminal_root)
  with g show ?thesis by simp
qed

text \<open>
  C8. With every key byte below the fan-out width, all four operations should return
  without a fault. Insert, Get and Delete do (\<open>operations_total_in_range\<close>), and a byte
  at or above the width makes Insert panic (\<open>Insert_out_of_range\<close>). Traverse does not:
  after inserting \<open>a\<close> and the empty key, both in range, it panics with slice bounds out
  of range, whatever the schedule.
\<close>

theorem C8_traverse_faults_in_range:
  "keyInRange ''a'' \<and> keyInRange []
   \<and> Traverse_after sched [OpInsert ''a'' (1::int), OpInsert [] 2] = Inl SliceBoundsOutOfRange"
proof -
  have k: "keyInRange ''a'' \<and> keyInRange []" by code_simp
  have "\<not> isl (run [OpInsert ''a'' (1::int), OpInsert [] 2] New)" by code_simp
  then obtain t where r: "run [OpInsert ''a'' (1::int), OpInsert [] 2] New = Inr t"
    by (cases "run [OpInsert ''a'' (1::int), OpInsert [] 2] New") auto
  have "map_sum id (\<lambda>t. map_option terminal (root t))
          (run [OpInsert ''a'' (1::int), OpInsert [] 2] New) = Inr (Some True)"
    by code_simp
  with r obtain n where n: "root t = Some n" "terminal n" by auto
  then have "t = \<lparr>root = Some n, pool = pool t\<rparr>" by (cases t) simp
  with Traverse_terminal_root [OF n(2), of sched "pool t"]
  have "Traverse sched t = Inl SliceBoundsOutOfRange" by simp
  with r have "Traverse_after sched [OpInsert ''a'' (1::int), OpInsert [] 2]
                 = Inl SliceBoundsOutOfRange"
    by (simp add: Traverse_after_def)
  with k show ?thesis by simp
qed

section \<open>Insert followed by Get\<close>

text \<open>
  C9. For every key in range, every value and every well-formed tree, Insert returns and
  Get of the same key on the resulting tree returns the value and true; a second Insert
  of the key with another value returns as well, and Get then returns that value.
\<close>

theorem C9_insert_get_roundtrip:
  assumes "keyInRange key" and "wf_tree t"
  shows "\<exists>t'. Insert key v t = Inr t' \<and> Get key t' = Inr (v, True)
           \<and> (\<exists>t''. Insert key v2 t' = Inr t'' \<and> Get key t'' = Inr (v2, True))"
proof -
  from Insert_ok [OF assms, of v] obtain t' where
    a: "Insert key v t = Inr t'" "wf_tree t'" "Get key t' = Inr (v, True)" by blast
  from Insert_ok [OF assms(1) a(2), of v2] obtain t'' where
    "Insert key v2 t' = Inr t''" "Get key t'' = Inr (v2, True)" by blast
  with a show ?thesis by blast
qed

text \<open>
  C9, witness: the key \<open>ab\<close> inserted with 2 and then with 7 into the tree that holds \<open>a\<close>.
\<close>

theorem C9_insert_get_roundtrip_witness:
  "keyInRange ''ab'' \<and> wf_tree tree_a
   \<and> (\<exists>t'. Insert ''ab'' 2 tree_a = Inr t' \<and> Get ''ab'' t' = Inr (2, True)
           \<and> (\<exists>t''. Insert ''ab'' 7 t' = Inr t'' \<and> Get ''ab'' t'' = Inr (7, True)))"
proof -
  have k: "keyInRange ''ab''" by code_simp
  have w: "wf_tree tree_a" by code_simp
  from k w C9_insert_get_roundtrip [OF k w, of 2 7] show ?thesis by blast
qed

section \<open>A tree whose root reference is empty\<close>




end
